theory Spec2Isabelle
  imports Complex_Main "HOL-Library.AList" "HOL-Library.Log_Nat" "HOL-Library.Word"
begin

section \<open>JavaScript values\<close>

text \<open>
  The adapter of \<^verbatim>\<open>src/index.ts\<close> handles values of TypeScript type \<^verbatim>\<open>any\<close>: rejection
  values, configuration objects, payloads. They are embedded as a datatype of
  JavaScript values. A number is a rational, an infinity or NaN (the value of a double;
  negative zero is identified with zero, both are falsy). An object is the list of its
  enumerable string-keyed properties in enumeration order, each key once. A function is
  named by a reference: the adapter's own \<^verbatim>\<open>urlEncode\<close> and \<^verbatim>\<open>convertToFormData\<close>, the cancel
  function of the \<open>n\<close>-th cancellation token, or a function of the host program.
  \<open>JProgressHandler cb\<close> is the arrow function of lines 55-57, which has captured
  \<^verbatim>\<open>onProgress = cb\<close>; \<open>JCancelToken n\<close> is the \<open>n\<close>-th \<^verbatim>\<open>axios.CancelToken\<close> instance.
\<close>

datatype jsnum = Fin rat | PInf | NInf | NaN

datatype fnref =
    UrlEncodeFn
  | ConvertToFormDataFn
  | CancelFn nat
  | HostFn nat

datatype jsval =
    JUndefined
  | JNull
  | JBool bool
  | JNum jsnum
  | JStr string
  | JFun fnref
  | JProgressHandler jsval
  | JArr "jsval list"
  | JFileList "jsval list"
  | JCancelToken nat
  | JObj "(string \<times> jsval) list"

text \<open>What a \<^verbatim>\<open>throw\<close> carries: the engine's TypeError, or a value thrown by host code.\<close>

datatype exn = TypeError | Thrown jsval

text \<open>ToBoolean, as used by \<^verbatim>\<open>if (v)\<close>, \<^verbatim>\<open>!v\<close>, \<^verbatim>\<open>a || b\<close> and \<^verbatim>\<open>a && b\<close>.\<close>

fun truthy :: "jsval \<Rightarrow> bool" where
  "truthy JUndefined = False"
| "truthy JNull = False"
| "truthy (JBool b) = b"
| "truthy (JNum n) = (n \<noteq> Fin 0 \<and> n \<noteq> NaN)"
| "truthy (JStr s) = (s \<noteq> [])"
| "truthy (JFun f) = True"
| "truthy (JProgressHandler cb) = True"
| "truthy (JArr xs) = True"
| "truthy (JFileList xs) = True"
| "truthy (JCancelToken n) = True"
| "truthy (JObj ps) = True"

text \<open>
  Reading a property \<^verbatim>\<open>v.p\<close>. On \<^verbatim>\<open>null\<close> and \<^verbatim>\<open>undefined\<close> the read throws a TypeError.
  On an object it gives the property's value, \<^verbatim>\<open>undefined\<close> when there is none. The
  adapter reads only \<^verbatim>\<open>response\<close>, \<^verbatim>\<open>request\<close>, \<^verbatim>\<open>isAxiosError\<close>, \<^verbatim>\<open>paramsSerializer\<close>
  and \<^verbatim>\<open>transformRequest\<close> (and the transport reads \<^verbatim>\<open>__CANCEL__\<close>), none of which a
  built-in prototype defines, so every other value gives \<^verbatim>\<open>undefined\<close>.
\<close>

definition obj_get :: "(string \<times> jsval) list \<Rightarrow> string \<Rightarrow> jsval" where
  "obj_get ps p = (case map_of ps p of None \<Rightarrow> JUndefined | Some v \<Rightarrow> v)"

fun get_prop :: "jsval \<Rightarrow> string \<Rightarrow> exn + jsval" where
  "get_prop JUndefined p = Inl TypeError"
| "get_prop JNull p = Inl TypeError"
| "get_prop (JObj ps) p = Inr (obj_get ps p)"
| "get_prop v p = Inr JUndefined"

text \<open>
  Writing a property \<^verbatim>\<open>o.p = v\<close> of an ordinary object: an existing property keeps its
  place, a new one goes last.
\<close>

definition obj_set :: "string \<Rightarrow> jsval \<Rightarrow> (string \<times> jsval) list \<Rightarrow> (string \<times> jsval) list" where
  "obj_set p v ps = AList.update p v ps"

section \<open>Error classification\<close>

datatype errorType = Response | Request | Cancel | Unknown

text \<open>
  \<^verbatim>\<open>axios.isCancel\<close> belongs to the transport library, not to this repository; the library
  implements it as \<^verbatim>\<open>!!(value && value.__CANCEL__)\<close>. The guard \<^verbatim>\<open>value &&\<close> keeps the read
  away from \<^verbatim>\<open>null\<close> and \<^verbatim>\<open>undefined\<close>.
\<close>

definition axios_isCancel :: "jsval \<Rightarrow> bool" where
  "axios_isCancel v =
     (truthy v \<and> (case get_prop v ''__CANCEL__'' of Inl x \<Rightarrow> False | Inr c \<Rightarrow> truthy c))"

text \<open>\<^verbatim>\<open>Http.isCancel\<close>, lines 95-97.\<close>

definition isCancel :: "jsval \<Rightarrow> bool" where
  "isCancel v = axios_isCancel v"

text \<open>
  \<^verbatim>\<open>Http.isOwnError\<close>, lines 104-106: \<^verbatim>\<open>value.isAxiosError || this.isCancel(value)\<close>.
  The result of \<^verbatim>\<open>||\<close> is its left operand when that is truthy.
\<close>

definition isOwnError :: "jsval \<Rightarrow> exn + jsval" where
  "isOwnError v =
     (case get_prop v ''isAxiosError'' of
        Inl x \<Rightarrow> Inl x
      | Inr a \<Rightarrow> Inr (if truthy a then a else JBool (isCancel v)))"

text \<open>
  The classification of \<^verbatim>\<open>Http.onError\<close>, lines 116-124, with the property reads that
  may throw.
\<close>

definition classify :: "jsval \<Rightarrow> exn + errorType" where
  "classify error =
     (if isCancel error then Inr Cancel
      else case get_prop error ''response'' of
        Inl x \<Rightarrow> Inl x
      | Inr r \<Rightarrow>
          if truthy r then Inr Response
          else case get_prop error ''request'' of
            Inl x \<Rightarrow> Inl x
          | Inr q \<Rightarrow> if truthy q then Inr Request else Inr Unknown)"

section \<open>Error listeners\<close>

text \<open>
  \<^verbatim>\<open>errorListeners\<close> is an array of functions. A listener is named by a value of type
  \<^typ>\<open>'l\<close>; what the listener does when it is called is given by a body
  \<^typ>\<open>'l \<Rightarrow> jsval \<Rightarrow> errorType \<Rightarrow> 'l list \<Rightarrow> 'l list \<times> exn option\<close>: from the error, the kind
  and the array at the time of the call, the array after the call (a listener can reach
  the array through \<^verbatim>\<open>addErrorListener\<close> and the unsubscribe functions) and the value it
  throws, if it throws.
\<close>

type_synonym 'l listener_body = "'l \<Rightarrow> jsval \<Rightarrow> errorType \<Rightarrow> 'l list \<Rightarrow> 'l list \<times> exn option"

type_synonym 'l call = "'l \<times> jsval \<times> errorType"

datatype completion = Returned | Threw exn

text \<open>
  \<^verbatim>\<open>Array.prototype.splice(start, deleteCount)\<close> on the array \<open>xs\<close>: a negative start counts
  from the end, the start is clamped to the length and the count to what is left.
\<close>

definition splice :: "int \<Rightarrow> int \<Rightarrow> 'a list \<Rightarrow> 'a list" where
  "splice start deleteCount xs =
     (let len = int (length xs);
          s = (if start < 0 then max (len + start) 0 else min start len);
          d = min (max deleteCount 0) (len - s)
      in take (nat s) xs @ drop (nat (s + d)) xs)"

text \<open>
  \<^verbatim>\<open>Http.addErrorListener\<close>, lines 78-86: \<^verbatim>\<open>push\<close> appends the listener and returns the new
  length \<open>count\<close>; the closure returned keeps \<open>count\<close>. \<open>unsubscribe count\<close> is that
  closure: \<^verbatim>\<open>errorListeners.splice(count-1, 1)\<close>.
\<close>

definition addErrorListener :: "'l \<Rightarrow> 'l list \<Rightarrow> 'l list \<times> nat" where
  "addErrorListener listener errorListeners =
     (let errorListeners' = errorListeners @ [listener]
      in (errorListeners', length errorListeners'))"

definition unsubscribe :: "nat \<Rightarrow> 'l list \<Rightarrow> 'l list" where
  "unsubscribe count errorListeners = splice (int count - 1) 1 errorListeners"

text \<open>
  The loop of \<^verbatim>\<open>Http.onError\<close>, lines 126-128. \<^verbatim>\<open>for (const listener of arr)\<close> keeps an
  index into the live array and stops when the index reaches the current length. A
  listener that throws ends the loop; a listener that registers another one at each call
  keeps it running, so the loop is a partial function.
\<close>

partial_function (option) notify ::
  "'l listener_body \<Rightarrow> jsval \<Rightarrow> errorType \<Rightarrow> nat \<Rightarrow> 'l list \<Rightarrow> 'l call list
     \<Rightarrow> (completion \<times> 'l list \<times> 'l call list) option"
where
  "notify body error errorType i errorListeners calls =
     (if i < length errorListeners then
        (let listener = errorListeners ! i;
             r = body listener error errorType errorListeners;
             calls' = calls @ [(listener, error, errorType)]
         in case snd r of
              Some x \<Rightarrow> Some (Threw x, fst r, calls')
            | None \<Rightarrow> notify body error errorType (i + 1) (fst r) calls')
      else Some (Returned, errorListeners, calls))"

text \<open>
  \<^verbatim>\<open>Http.onError\<close>, lines 115-129: how the step ends, the listener array afterwards and
  the calls made to listeners, in order.
\<close>

definition onError ::
  "'l listener_body \<Rightarrow> jsval \<Rightarrow> 'l list \<Rightarrow> (completion \<times> 'l list \<times> 'l call list) option"
where
  "onError body error errorListeners =
     (case classify error of
        Inl x \<Rightarrow> Some (Threw x, errorListeners, [])
      | Inr errorType \<Rightarrow> notify body error errorType 0 errorListeners [])"

text \<open>
  A history of calls made on the registry after some registration: further registrations
  and calls of unsubscribe functions, each with the count it has captured.
\<close>

datatype 'l registry_op = Register 'l | Unsubscribe nat

fun apply_op :: "'l list \<Rightarrow> 'l registry_op \<Rightarrow> 'l list" where
  "apply_op errorListeners (Register listener) = fst (addErrorListener listener errorListeners)"
| "apply_op errorListeners (Unsubscribe count) = unsubscribe count errorListeners"

definition run_ops :: "'l list \<Rightarrow> 'l registry_op list \<Rightarrow> 'l list" where
  "run_ops errorListeners ops = foldl apply_op errorListeners ops"

text \<open>The listeners a step has called, in the order of the calls.\<close>

definition called :: "'l call list \<Rightarrow> 'l list" where
  "called calls = map fst calls"

text \<open>
  The spec's "the error carries a \<open>p\<close> attribute", read the way the source tests it:
  \<^verbatim>\<open>if (error.p)\<close>, the property reads as a truthy value.
\<close>

definition carries :: "jsval \<Rightarrow> string \<Rightarrow> bool" where
  "carries v p = (case get_prop v p of Inl x \<Rightarrow> False | Inr a \<Rightarrow> truthy a)"

text \<open>
  Bodies for listeners named by numbers: one where no listener does anything, one
  where listener 0 throws and the others do nothing.
\<close>

definition quiet :: "nat listener_body" where
  "quiet listener error errorType errorListeners = (errorListeners, None)"

definition first_throws :: "nat listener_body" where
  "first_throws listener error errorType errorListeners =
     (errorListeners, if listener = 0 then Some (Thrown (JStr ''boom'')) else None)"

text \<open>
  A body where listener 0, registered first, calls its own unsubscribe function (count 1)
  when it is notified, and the others do nothing.
\<close>

definition first_unsubscribes :: "nat listener_body" where
  "first_unsubscribes listener error errorType errorListeners =
     (if listener = 0 then unsubscribe 1 errorListeners else errorListeners, None)"

text \<open>
  A body where listener 1, when it is notified, registers listener 7, and the others do
  nothing.
\<close>

definition registers_again :: "nat listener_body" where
  "registers_again listener error errorType errorListeners =
     (if listener = 1 then fst (addErrorListener 7 errorListeners) else errorListeners, None)"

section \<open>Requests\<close>

text \<open>
  The promise that \<^verbatim>\<open>client.request\<close> returns is described by how it settles.
  \<^verbatim>\<open>promise.catch(handler)\<close> leaves \<^verbatim>\<open>promise\<close> as it is and makes a second promise; the
  handler runs when \<^verbatim>\<open>promise\<close> is rejected, with the rejection value.
\<close>

datatype settled = Pending | Resolved jsval | Rejected jsval

definition promise_catch :: "settled \<Rightarrow> (jsval \<Rightarrow> 'r) \<Rightarrow> 'r option" where
  "promise_catch promise handler =
     (case promise of Rejected reason \<Rightarrow> Some (handler reason) | _ \<Rightarrow> None)"

text \<open>
  What a call of \<^verbatim>\<open>Http.request\<close> leaves behind: the pair it returns, the object handed
  to \<^verbatim>\<open>client.request\<close> (\<open>config\<close>), the caller's own configuration object as it is after
  the call (\<open>caller_config\<close>), and the run of \<^verbatim>\<open>onError\<close> that the internal \<^verbatim>\<open>catch\<close>
  starts, if it starts one. The source makes no copy: it assigns to the properties of
  its parameter \<^verbatim>\<open>config\<close>, which is the caller's object, and hands that object on. Had
  it worked on a copy, \<open>caller_config\<close> would be the configuration the caller passed.
\<close>

record 'l request_result =
  promise :: settled
  cancelFn :: jsval
  config :: "(string \<times> jsval) list"
  caller_config :: "(string \<times> jsval) list"
  observed :: "(completion \<times> 'l list \<times> 'l call list) option option"

text \<open>
  \<^verbatim>\<open>Http.request\<close>, lines 36-69. \<open>client\<close> is \<^verbatim>\<open>this.client.request\<close>, the transport;
  \<open>tok\<close> numbers the cancellation token made by this call; \<open>errorListeners\<close> is the
  listener array at the time the rejection is observed; \<open>onProgress\<close> is \<^verbatim>\<open>undefined\<close>
  when the caller passes none. The configuration is an ordinary extensible object.
\<close>

definition request ::
  "'l listener_body \<Rightarrow> ((string \<times> jsval) list \<Rightarrow> settled) \<Rightarrow> nat \<Rightarrow> 'l list
     \<Rightarrow> (string \<times> jsval) list \<Rightarrow> jsval \<Rightarrow> 'l request_result"
where
  "request body client tok errorListeners config0 onProgress =
     (let config1 = obj_set ''cancelToken'' (JCancelToken tok) config0;
          config2 = (if \<not> truthy (obj_get config1 ''paramsSerializer'')
                     then obj_set ''paramsSerializer'' (JFun UrlEncodeFn) config1
                     else config1);
          config3 = (if \<not> truthy (obj_get config2 ''transformRequest'')
                     then obj_set ''transformRequest'' (JFun ConvertToFormDataFn) config2
                     else config2);
          config4 = (if truthy onProgress
                     then obj_set ''onDownloadProgress'' (JProgressHandler onProgress)
                            (obj_set ''onUploadProgress'' (JProgressHandler onProgress) config3)
                     else config3);
          p = client config4
      in \<lparr> promise = p,
           cancelFn = JFun (CancelFn tok),
           config = config4,
           caller_config = config4,
           observed = promise_catch p (\<lambda>error. onError body error errorListeners) \<rparr>)"

text \<open>The fields that \<^verbatim>\<open>Http.request\<close> assigns.\<close>

definition hook_fields :: "string list" where
  "hook_fields =
     [''cancelToken'', ''paramsSerializer'', ''transformRequest'',
      ''onDownloadProgress'', ''onUploadProgress'']"

text \<open>A transport that rejects every request with the same value.\<close>

definition rejecting :: "jsval \<Rightarrow> (string \<times> jsval) list \<Rightarrow> settled" where
  "rejecting reason cfg = Rejected reason"

section \<open>Multipart form bodies\<close>

text \<open>
  A \<^verbatim>\<open>FormData\<close> body is its entry list. \<^verbatim>\<open>append\<close> adds an entry at the end; \<^verbatim>\<open>set\<close>
  puts the new entry in the place of the first entry of that name and removes the other
  entries of that name, or adds it at the end when there is none. An entry does not hold
  the value handed over but what \<^verbatim>\<open>FormData\<close> makes of it: the value itself for a
  \<^verbatim>\<open>Blob\<close> or \<^verbatim>\<open>File\<close>, the string \<^verbatim>\<open>String(value)\<close> for every other value. \<^verbatim>\<open>FormData\<close> is
  the browser's, not the repository's; its conversion is the parameter \<open>stored\<close> of the
  operations, and what is proved holds for every conversion.
\<close>

type_synonym 'v form_data = "(string \<times> 'v) list"

definition formData_append ::
  "(jsval \<Rightarrow> 'v) \<Rightarrow> 'v form_data \<Rightarrow> string \<Rightarrow> jsval \<Rightarrow> 'v form_data" where
  "formData_append stored formData name v = formData @ [(name, stored v)]"

fun formData_set ::
  "(jsval \<Rightarrow> 'v) \<Rightarrow> 'v form_data \<Rightarrow> string \<Rightarrow> jsval \<Rightarrow> 'v form_data" where
  "formData_set stored [] name v = [(name, stored v)]"
| "formData_set stored (e # es) name v =
     (if fst e = name then (name, stored v) # filter (\<lambda>e'. fst e' \<noteq> name) es
      else e # formData_set stored es name v)"

text \<open>\<^verbatim>\<open>value instanceof FileList || Array.isArray(value)\<close>, with the elements.\<close>

fun list_elements :: "jsval \<Rightarrow> jsval list option" where
  "list_elements (JFileList xs) = Some xs"
| "list_elements (JArr xs) = Some xs"
| "list_elements v = None"

text \<open>The inner loop, lines 159-161, from index \<open>i\<close> on.\<close>

function append_elements ::
  "(jsval \<Rightarrow> 'v) \<Rightarrow> string \<Rightarrow> jsval list \<Rightarrow> nat \<Rightarrow> 'v form_data \<Rightarrow> 'v form_data" where
  "append_elements stored name xs i formData =
     (if i < length xs
      then append_elements stored name xs (i + 1)
             (formData_append stored formData (name @ ''[]'') (xs ! i))
      else formData)"
  by pat_completeness auto
termination
  by (relation "measure (\<lambda>(stored, name, xs, i, formData). length xs - i)") auto

declare append_elements.simps [simp del]

text \<open>
  The outer loop, lines 156-165: \<^verbatim>\<open>for (const name in data)\<close> over the properties of a
  plain object, in enumeration order.
\<close>

fun convert_fields ::
  "(jsval \<Rightarrow> 'v) \<Rightarrow> (string \<times> jsval) list \<Rightarrow> 'v form_data \<Rightarrow> 'v form_data" where
  "convert_fields stored [] formData = formData"
| "convert_fields stored ((name, v) # rest) formData =
     convert_fields stored rest
       (case list_elements v of
          Some xs \<Rightarrow> append_elements stored name xs 0 formData
        | None \<Rightarrow> formData_set stored formData name v)"

text \<open>
  \<^verbatim>\<open>Http.convertToFormData\<close>, lines 150-168, on a plain object given by its properties;
  \<open>headers\<close> is not used by the source either.
\<close>

definition convertToFormData ::
  "(jsval \<Rightarrow> 'v) \<Rightarrow> (string \<times> jsval) list \<Rightarrow> jsval \<Rightarrow> 'v form_data" where
  "convertToFormData stored data headers = convert_fields stored data []"

text \<open>The entries of a form body under one key, in order.\<close>

definition entries :: "string \<Rightarrow> 'v form_data \<Rightarrow> 'v form_data" where
  "entries k formData = filter (\<lambda>e. fst e = k) formData"

text \<open>The key under which a field is written: \<open>name[]\<close> for a list, \<open>name\<close> otherwise.\<close>

definition form_key :: "string \<Rightarrow> jsval \<Rightarrow> string" where
  "form_key name v = (case list_elements v of Some xs \<Rightarrow> name @ ''[]'' | None \<Rightarrow> name)"

text \<open>
  For examples, the conversion where it is plain: \<^verbatim>\<open>String(s)\<close> is \<open>s\<close> itself for a string,
  \<^verbatim>\<open>String\<close> of \<^verbatim>\<open>undefined\<close>, \<^verbatim>\<open>null\<close>, a boolean, NaN or an infinity is its name, and
  \<^verbatim>\<open>String\<close> of an integer below \<open>2 ^ 53\<close> in absolute value is its decimal numeral. For
  any other value \<open>FormOther v\<close> only names what \<^verbatim>\<open>FormData\<close> stores for \<open>v\<close>.
\<close>

datatype form_value = FormString string | FormOther jsval

function decimal :: "nat \<Rightarrow> string" where
  "decimal n = (if n < 10 then [''0123456789'' ! n] else decimal (n div 10) @ [''0123456789'' ! (n mod 10)])"
  by pat_completeness auto
termination
  by (relation "measure (\<lambda>n. n)") auto

declare decimal.simps [simp del]

fun stored_text :: "jsval \<Rightarrow> form_value" where
  "stored_text (JStr s) = FormString s"
| "stored_text JUndefined = FormString ''undefined''"
| "stored_text JNull = FormString ''null''"
| "stored_text (JBool b) = FormString (if b then ''true'' else ''false'')"
| "stored_text (JNum NaN) = FormString ''NaN''"
| "stored_text (JNum PInf) = FormString ''Infinity''"
| "stored_text (JNum NInf) = FormString ''-Infinity''"
| "stored_text (JNum (Fin q)) =
     (if q = of_int \<lfloor>q\<rfloor> \<and> \<bar>q\<bar> < 2 ^ 53
      then FormString ((if q < 0 then ''-'' else []) @ decimal (nat \<bar>\<lfloor>q\<rfloor>\<bar>))
      else FormOther (JNum (Fin q)))"
| "stored_text v = FormOther v"

section \<open>Progress\<close>

text \<open>
  \<^verbatim>\<open>loaded\<close> and \<^verbatim>\<open>total\<close> of a \<^verbatim>\<open>ProgressEvent\<close> are \<^verbatim>\<open>unsigned long long\<close>; the source
  reads them as Numbers and computes in binary64, rounding to nearest, ties to even.
  For a positive rational \<open>q\<close>, \<open>floor_log2 q\<close> is the exponent \<open>e\<close> with
  \<open>2 powi e \<le> q < 2 powi (e + 1)\<close>; the doubles around \<open>q\<close> are the multiples of
  \<open>ulp q = 2 powi (e - 52)\<close>, of \<open>2 powi (- 1074)\<close> below the normal range; \<open>nearest q\<close> is
  the multiple next to \<open>q\<close>, the even one of two that are equally near; from
  \<open>2 powi 1024\<close> on the result is infinite.
\<close>

definition floor_log2 :: "rat \<Rightarrow> int" where
  "floor_log2 q =
     (let a = fst (quotient_of q); b = snd (quotient_of q); d = bitlen a - bitlen b
      in if 2 powi d \<le> q then d else d - 1)"

definition round_half_even :: "rat \<Rightarrow> int" where
  "round_half_even x =
     (let f = \<lfloor>x\<rfloor>; r = x - of_int f
      in if r < 1 / 2 then f else if 1 / 2 < r then f + 1 else if even f then f else f + 1)"

definition ulp :: "rat \<Rightarrow> rat" where
  "ulp q = 2 powi (max (floor_log2 q) (- 1022) - 52)"

definition nearest :: "rat \<Rightarrow> rat" where
  "nearest q = of_int (round_half_even (q / ulp q)) * ulp q"

definition round_pos :: "rat \<Rightarrow> jsnum" where
  "round_pos q = (if 2 powi 1024 \<le> nearest q then PInf else Fin (nearest q))"

fun js_neg :: "jsnum \<Rightarrow> jsnum" where
  "js_neg (Fin q) = Fin (- q)"
| "js_neg PInf = NInf"
| "js_neg NInf = PInf"
| "js_neg NaN = NaN"

definition round_double :: "rat \<Rightarrow> jsnum" where
  "round_double q =
     (if q = 0 then Fin 0 else if q < 0 then js_neg (round_pos (- q)) else round_pos q)"

text \<open>
  The operators \<^verbatim>\<open>/\<close> and \<^verbatim>\<open>*\<close> on Numbers and \<^verbatim>\<open>Math.round\<close>, which rounds a half
  upwards. A zero is the positive zero: no operand here is negative.
\<close>

fun js_div :: "jsnum \<Rightarrow> jsnum \<Rightarrow> jsnum" where
  "js_div (Fin a) (Fin b) =
     (if b = 0 then (if a = 0 then NaN else if 0 < a then PInf else NInf)
      else round_double (a / b))"
| "js_div (Fin a) PInf = Fin 0"
| "js_div (Fin a) NInf = Fin 0"
| "js_div PInf (Fin b) = (if 0 \<le> b then PInf else NInf)"
| "js_div NInf (Fin b) = (if 0 \<le> b then NInf else PInf)"
| "js_div x y = NaN"

fun js_mul :: "jsnum \<Rightarrow> jsnum \<Rightarrow> jsnum" where
  "js_mul (Fin a) (Fin b) = round_double (a * b)"
| "js_mul (Fin a) PInf = (if a = 0 then NaN else if 0 < a then PInf else NInf)"
| "js_mul (Fin a) NInf = (if a = 0 then NaN else if 0 < a then NInf else PInf)"
| "js_mul PInf (Fin b) = (if b = 0 then NaN else if 0 < b then PInf else NInf)"
| "js_mul NInf (Fin b) = (if b = 0 then NaN else if 0 < b then NInf else PInf)"
| "js_mul PInf PInf = PInf"
| "js_mul PInf NInf = NInf"
| "js_mul NInf PInf = NInf"
| "js_mul NInf NInf = PInf"
| "js_mul x y = NaN"

fun Math_round :: "jsnum \<Rightarrow> jsnum" where
  "Math_round (Fin q) = Fin (of_int \<lfloor>q + 1 / 2\<rfloor>)"
| "Math_round x = x"

definition to_number :: "64 word \<Rightarrow> jsnum" where
  "to_number w = round_double (of_nat (unat w))"

record ProgressEvent =
  lengthComputable :: bool
  loaded :: "64 word"
  total :: "64 word"

text \<open>
  \<^verbatim>\<open>Http.normalizeProgress\<close>, lines 178-182: the arguments of the calls made to \<^verbatim>\<open>cb\<close>, in
  order.
\<close>

definition normalizeProgress :: "ProgressEvent \<Rightarrow> jsnum list" where
  "normalizeProgress e =
     (if lengthComputable e
      then [Math_round (js_mul (js_div (to_number (loaded e)) (to_number (total e))) (Fin 100))]
      else [])"

section \<open>Classification of rejection values\<close>

lemma isCancel_null: "\<not> isCancel JNull" "\<not> isCancel JUndefined"
  by (simp_all add: isCancel_def axios_isCancel_def)

lemma classify_null: "classify JNull = Inl TypeError" "classify JUndefined = Inl TypeError"
  by (simp_all add: classify_def isCancel_null)

lemma get_prop_total:
  "error \<noteq> JNull \<Longrightarrow> error \<noteq> JUndefined \<Longrightarrow> \<exists>a. get_prop error p = Inr a"
  by (cases error) simp_all

text \<open>
  C1, as stated, at \<^verbatim>\<open>null\<close>: the value is no cancellation and carries neither attribute,
  so the claim gives it the kind \<^verbatim>\<open>unknown\<close>; the source reads \<^verbatim>\<open>error.response\<close> and throws
  a TypeError, and no kind is computed.
\<close>

theorem classify_null_counterexample:
  "\<not> isCancel JNull \<and> \<not> carries JNull ''response'' \<and> \<not> carries JNull ''request''
     \<and> classify JNull = Inl TypeError \<and> classify JNull \<noteq> Inr Unknown"
  by (simp add: classify_null isCancel_null carries_def)

text \<open>
  C1, amended: for every error value other than \<^verbatim>\<open>null\<close> and \<^verbatim>\<open>undefined\<close> the kind follows
  the first match: \<^verbatim>\<open>cancel\<close> for a cancellation; otherwise \<^verbatim>\<open>response\<close> when the \<^verbatim>\<open>response\<close>
  attribute reads as a truthy value; otherwise \<^verbatim>\<open>request\<close> when the \<^verbatim>\<open>request\<close> attribute
  does; otherwise \<^verbatim>\<open>unknown\<close>.
\<close>

theorem classify_precedence:
  assumes "error \<noteq> JNull" and "error \<noteq> JUndefined"
  shows "classify error =
     Inr (if isCancel error then Cancel
          else if carries error ''response'' then Response
          else if carries error ''request'' then Request
          else Unknown)"
proof -
  obtain r where r: "get_prop error ''response'' = Inr r"
    using get_prop_total[OF assms] by blast
  obtain q where q: "get_prop error ''request'' = Inr q"
    using get_prop_total[OF assms] by blast
  show ?thesis by (simp add: classify_def carries_def r q)
qed

text \<open>
  An error with the cancellation marker and a response is a \<^verbatim>\<open>cancel\<close>; one with a
  response and a request is a \<^verbatim>\<open>response\<close>; one with a request only is a \<^verbatim>\<open>request\<close>.
\<close>

theorem classify_precedence_witness:
  "classify (JObj [(''__CANCEL__'', JBool True), (''response'', JObj [])]) = Inr Cancel
   \<and> classify (JObj [(''response'', JObj []), (''request'', JObj [])]) = Inr Response
   \<and> classify (JObj [(''request'', JObj [])]) = Inr Request
   \<and> classify (JStr ''timeout'') = Inr Unknown"
  using classify_precedence [of "JObj [(''__CANCEL__'', JBool True), (''response'', JObj [])]"]
    classify_precedence [of "JObj [(''response'', JObj []), (''request'', JObj [])]"]
    classify_precedence [of "JObj [(''request'', JObj [])]"]
    classify_precedence [of "JStr ''timeout''"]
  by (simp add: isCancel_def axios_isCancel_def carries_def obj_get_def)

text \<open>
  C10: \<^verbatim>\<open>isOwnError\<close> throws a TypeError on \<^verbatim>\<open>null\<close> and on \<^verbatim>\<open>undefined\<close> instead of
  giving a boolean, and \<^verbatim>\<open>onError\<close> on such a rejection value throws before it has called
  any listener, whatever the listeners are.
\<close>

theorem null_rejection_throws:
  "isOwnError JNull = Inl TypeError \<and> isOwnError JUndefined = Inl TypeError
   \<and> onError body JNull errorListeners = Some (Threw TypeError, errorListeners, [])
   \<and> onError body JUndefined errorListeners = Some (Threw TypeError, errorListeners, [])"
  by (simp add: isOwnError_def onError_def classify_null)

section \<open>Notification of listeners\<close>

lemma notify_wellbehaved:
  assumes "\<forall>l\<in>set ls. body l e k ls = (ls, None)"
  shows "i \<le> length ls \<Longrightarrow>
     notify body e k i ls tr = Some (Returned, ls, tr @ map (\<lambda>l. (l, e, k)) (drop i ls))"
proof (induction "length ls - i" arbitrary: i tr)
  case 0
  then show ?case by (subst notify.simps) simp
next
  case (Suc n)
  then have lt: "i < length ls" by simp
  then have b: "body (ls ! i) e k ls = (ls, None)" using assms by simp
  have "n = length ls - (i + 1)" using Suc.hyps(2) by simp
  from Suc.hyps(1)[OF this, of "tr @ [(ls ! i, e, k)]"] lt
  have ih: "notify body e k (i + 1) ls (tr @ [(ls ! i, e, k)]) =
     Some (Returned, ls, (tr @ [(ls ! i, e, k)]) @ map (\<lambda>l. (l, e, k)) (drop (i + 1) ls))"
    by simp
  have d: "drop i ls = ls ! i # drop (i + 1) ls"
    using lt by (simp add: Cons_nth_drop_Suc)
  show ?case
    using ih by (subst notify.simps) (simp add: lt b d Let_def)
qed

lemma notify_keeps:
  assumes "\<forall>l\<in>set ls. fst (body l e k ls) = ls"
  shows "i \<le> length ls \<Longrightarrow>
     \<exists>c n. notify body e k i ls tr =
        Some (c, ls, tr @ map (\<lambda>l. (l, e, k)) (take n (drop i ls)))"
proof (induction "length ls - i" arbitrary: i tr)
  case 0
  then have "notify body e k i ls tr =
      Some (Returned, ls, tr @ map (\<lambda>l. (l, e, k)) (take 0 (drop i ls)))"
    by (subst notify.simps) simp
  then show ?case by blast
next
  case (Suc n)
  then have lt: "i < length ls" by simp
  then have b: "fst (body (ls ! i) e k ls) = ls" using assms by simp
  have d: "drop i ls = ls ! i # drop (i + 1) ls"
    using lt by (simp add: Cons_nth_drop_Suc)
  show ?case
  proof (cases "snd (body (ls ! i) e k ls)")
    case None
    have "n = length ls - (i + 1)" using Suc.hyps(2) by simp
    from Suc.hyps(1)[OF this, of "tr @ [(ls ! i, e, k)]"] lt
    obtain c m where ih: "notify body e k (i + 1) ls (tr @ [(ls ! i, e, k)]) =
       Some (c, ls, (tr @ [(ls ! i, e, k)]) @ map (\<lambda>l. (l, e, k)) (take m (drop (i + 1) ls)))"
      by auto
    have "notify body e k i ls tr =
       Some (c, ls, tr @ map (\<lambda>l. (l, e, k)) (take (Suc m) (drop i ls)))"
      using ih by (subst notify.simps) (simp add: lt b None d Let_def)
    then show ?thesis by blast
  next
    case (Some x)
    have "notify body e k i ls tr =
       Some (Threw x, ls, tr @ map (\<lambda>l. (l, e, k)) (take 1 (drop i ls)))"
      by (subst notify.simps) (simp add: lt b Some d Let_def)
    then show ?thesis by blast
  qed
qed

lemma onError_keeps:
  assumes "\<forall>l\<in>set ls. \<forall>k. fst (body l e k ls) = ls"
  shows "\<exists>c calls. onError body e ls = Some (c, ls, calls) \<and> set (called calls) \<subseteq> set ls"
proof (cases "classify e")
  case (Inl x)
  then show ?thesis by (simp add: onError_def called_def)
next
  case (Inr k)
  have "\<forall>l\<in>set ls. fst (body l e k ls) = ls" using assms by simp
  with notify_keeps[where body = body and e = e and k = k and ls = ls and i = 0 and tr = "[]"]
  obtain c n where "notify body e k 0 ls [] = Some (c, ls, map (\<lambda>l. (l, e, k)) (take n ls))"
    by auto
  moreover have "set (called (map (\<lambda>l. (l, e, k)) (take n ls))) \<subseteq> set ls"
    by (auto simp: called_def dest: in_set_takeD)
  ultimately show ?thesis using Inr by (simp add: onError_def)
qed

text \<open>
  C2, as stated, with two listeners of which the first throws: the loop ends with the
  exception, and listener 1, which is in the sequence, is never called.
\<close>

theorem onError_throwing_listener_counterexample:
  "onError first_throws (JObj []) [0, 1] =
     Some (Threw (Thrown (JStr ''boom'')), [0, 1], [(0, JObj [], Unknown)])"
  by (simp add: onError_def classify_def isCancel_def axios_isCancel_def obj_get_def
      first_throws_def notify.simps Let_def)

text \<open>
  A listener that unsubscribes itself while it is notified moves the next listener to
  the index the loop has just left: with the listeners 0, 1, 2, listener 1 is skipped.
\<close>

lemma onError_self_removing_listener:
  "onError first_unsubscribes (JObj []) [0, 1, 2] =
     Some (Returned, [1, 2], [(0, JObj [], Unknown), (2, JObj [], Unknown)])"
  by (simp add: onError_def classify_def isCancel_def axios_isCancel_def obj_get_def
      first_unsubscribes_def unsubscribe_def splice_def notify.simps Let_def)

text \<open>
  C2, amended: when the rejection value can be classified and every listener of the
  sequence returns without throwing and without changing the sequence, \<^verbatim>\<open>onError\<close> calls
  each entry of the sequence once, in registration order, each with the same error and
  the same kind, and returns.
\<close>

theorem onError_notifies_all:
  assumes "classify error = Inr errorType"
    and "\<forall>l\<in>set errorListeners. body l error errorType errorListeners = (errorListeners, None)"
  shows "onError body error errorListeners =
     Some (Returned, errorListeners, map (\<lambda>l. (l, error, errorType)) errorListeners)"
  using notify_wellbehaved[where body = body and e = error and k = errorType
      and ls = errorListeners and i = 0 and tr = "[]"] assms
  by (simp add: onError_def)

theorem onError_notifies_all_witness:
  "run_ops [] [Register 1, Register 2, Register 3] = [1, 2, 3::nat]
   \<and> classify (JObj [(''response'', JObj [])]) = Inr Response
   \<and> onError quiet (JObj [(''response'', JObj [])]) [1, 2, 3] =
       Some (Returned, [1, 2, 3],
         [(1, JObj [(''response'', JObj [])], Response),
          (2, JObj [(''response'', JObj [])], Response),
          (3, JObj [(''response'', JObj [])], Response)])"
proof -
  have c: "classify (JObj [(''response'', JObj [])]) = Inr Response"
    by (simp add: classify_def isCancel_def axios_isCancel_def obj_get_def)
  have q: "\<forall>l\<in>set [1, 2, 3]. quiet l (JObj [(''response'', JObj [])]) Response [1, 2, 3]
         = ([1, 2, 3], None)"
    by (simp add: quiet_def)
  have r: "run_ops [] [Register 1, Register 2, Register 3] = [1, 2, 3::nat]"
    by (simp add: run_ops_def addErrorListener_def)
  show ?thesis
    using c q r onError_notifies_all [where body = quiet and errorListeners = "[1, 2, 3]"
        and error = "JObj [(''response'', JObj [])]" and errorType = Response]
    by simp
qed

section \<open>Registration and removal of listeners\<close>

lemma unsubscribe_eq:
  "1 \<le> count \<Longrightarrow> unsubscribe count ys = take (count - 1) ys @ drop count ys"
  by (auto simp: unsubscribe_def splice_def Let_def min_def max_def nat_diff_distrib)

lemma run_ops_keeps_prefix:
  "\<forall>c. Unsubscribe c \<in> set ops \<longrightarrow> length xs + 1 < c \<Longrightarrow>
   \<exists>zs. run_ops (xs @ L # zs0) ops = xs @ L # zs \<and>
        set zs \<subseteq> set zs0 \<union> {l. Register l \<in> set ops}"
proof (induction ops arbitrary: zs0)
  case Nil
  then show ?case by (simp add: run_ops_def)
next
  case (Cons a ops)
  show ?case
  proof (cases a)
    case (Register l)
    have "\<exists>zs. run_ops (xs @ L # (zs0 @ [l])) ops = xs @ L # zs \<and>
        set zs \<subseteq> set (zs0 @ [l]) \<union> {l. Register l \<in> set ops}"
      using Cons.prems by (intro Cons.IH) simp
    then show ?thesis using Register
      by (auto simp: run_ops_def addErrorListener_def Let_def)
  next
    case (Unsubscribe c)
    then have c: "length xs + 1 < c" using Cons.prems by simp
    let ?j = "c - 1 - (length xs + 1)"
    from c obtain d where d: "c = length xs + 2 + d"
      by (metis add_2_eq_Suc' less_iff_Suc_add add_Suc_right add_Suc Suc_eq_plus1)
    have u: "unsubscribe c (xs @ L # zs0) = xs @ L # (take ?j zs0 @ drop (Suc ?j) zs0)"
      by (simp add: unsubscribe_eq d)
    have "\<exists>zs. run_ops (xs @ L # (take ?j zs0 @ drop (Suc ?j) zs0)) ops = xs @ L # zs \<and>
        set zs \<subseteq> set (take ?j zs0 @ drop (Suc ?j) zs0) \<union> {l. Register l \<in> set ops}"
      using Cons.prems by (intro Cons.IH) simp
    then obtain zs where
      zs: "run_ops (xs @ L # (take ?j zs0 @ drop (Suc ?j) zs0)) ops = xs @ L # zs"
        "set zs \<subseteq> set (take ?j zs0 @ drop (Suc ?j) zs0) \<union> {l. Register l \<in> set ops}"
      by blast
    have "set (take ?j zs0 @ drop (Suc ?j) zs0) \<subseteq> set zs0"
      by (auto dest: in_set_takeD in_set_dropD)
    with zs show ?thesis using Unsubscribe u
      by (auto simp: run_ops_def)
  qed
qed

text \<open>
  C6, as stated, with the same listener registered twice and nothing removed before:
  the unsubscribe function of the second registration removes that entry, the entry of
  the first registration stays, and the next failing request calls the listener.
\<close>

theorem unsubscribe_double_registration_counterexample:
  "addErrorListener (7::nat) [] = ([7], 1)
   \<and> addErrorListener (7::nat) [7] = ([7, 7], 2)
   \<and> unsubscribe 2 [7, 7::nat] = [7]
   \<and> onError quiet (JStr ''x'') [7] = Some (Returned, [7], [(7, JStr ''x'', Unknown)])"
  by (simp add: addErrorListener_def unsubscribe_def splice_def onError_def classify_def
      isCancel_def axios_isCancel_def quiet_def notify.simps Let_def)

text \<open>
  Two more runs. The unsubscribe function of a listener registered earlier was called
  first, in registration order: the second listener has moved to index 0, and its own
  unsubscribe function, which removes at index 1, leaves it subscribed. And a remaining
  listener that registers the removed one again, while it is notified, has it called in
  the same run.
\<close>

lemma unsubscribe_after_earlier_removal:
  "unsubscribe 2 (unsubscribe 1 [1, 2::nat]) = [2]"
  by (simp add: unsubscribe_def splice_def)

lemma onError_listener_registered_again:
  "unsubscribe 2 [1, 7::nat] = [1]
   \<and> onError registers_again (JStr ''x'') [1] =
        Some (Returned, [1, 7], [(1, JStr ''x'', Unknown), (7, JStr ''x'', Unknown)])"
  by (simp add: unsubscribe_def splice_def onError_def classify_def isCancel_def
      axios_isCancel_def registers_again_def addErrorListener_def notify.simps Let_def)

text \<open>
  C6, amended: \<open>L\<close> is registered on the sequence \<open>xs\<close>, which gives the unsubscribe
  function its count. At every call, on any current sequence, that function removes the
  entry at the captured position, if there is one. When, between the registration and
  the call, listeners were registered and unsubscribe functions were called only for
  listeners registered after \<open>L\<close> (their counts are larger), \<open>L\<close> still stands at the
  captured position and the call removes this entry and no other. When moreover \<open>L\<close> is
  not registered a second time and the remaining listeners leave the sequence as it is
  while they are notified, a later failing request does not call \<open>L\<close>.
\<close>

theorem unsubscribe_removes_listener:
  assumes reg: "addErrorListener L xs = (ys, count)"
  shows "unsubscribe count cur = take (count - 1) cur @ drop count cur
    \<and> ((\<forall>c. Unsubscribe c \<in> set ops \<longrightarrow> count < c) \<longrightarrow>
         (\<exists>zs. run_ops ys ops = xs @ L # zs
            \<and> unsubscribe count (run_ops ys ops) = xs @ zs
            \<and> (L \<notin> set xs \<and> Register L \<notin> set ops
                  \<and> (\<forall>l\<in>set (xs @ zs). \<forall>k. fst (body l error k (xs @ zs)) = xs @ zs)
                \<longrightarrow> L \<notin> set (xs @ zs)
                    \<and> (\<exists>c calls. onError body error (xs @ zs) = Some (c, xs @ zs, calls)
                          \<and> L \<notin> set (called calls)))))"
proof -
  have ys: "ys = xs @ L # []" and count: "count = length xs + 1"
    using reg by (auto simp: addErrorListener_def Let_def)
  have first: "unsubscribe count cur = take (count - 1) cur @ drop count cur"
    by (simp add: count unsubscribe_eq)
  have second: "\<exists>zs. run_ops ys ops = xs @ L # zs
            \<and> unsubscribe count (run_ops ys ops) = xs @ zs
            \<and> (L \<notin> set xs \<and> Register L \<notin> set ops
                  \<and> (\<forall>l\<in>set (xs @ zs). \<forall>k. fst (body l error k (xs @ zs)) = xs @ zs)
                \<longrightarrow> L \<notin> set (xs @ zs)
                    \<and> (\<exists>c calls. onError body error (xs @ zs) = Some (c, xs @ zs, calls)
                          \<and> L \<notin> set (called calls)))"
    if later: "\<forall>c. Unsubscribe c \<in> set ops \<longrightarrow> count < c"
  proof -
    have "\<forall>c. Unsubscribe c \<in> set ops \<longrightarrow> length xs + 1 < c"
      using later count by simp
    from run_ops_keeps_prefix[OF this, of L "[]"]
    obtain zs where zs: "run_ops ys ops = xs @ L # zs" "set zs \<subseteq> {l. Register l \<in> set ops}"
      unfolding ys by auto
    have u: "unsubscribe count (run_ops ys ops) = xs @ zs"
      by (simp add: zs(1) count unsubscribe_eq)
    have third: "L \<notin> set (xs @ zs)
        \<and> (\<exists>c calls. onError body error (xs @ zs) = Some (c, xs @ zs, calls)
              \<and> L \<notin> set (called calls))"
      if once: "L \<notin> set xs" "Register L \<notin> set ops"
        and still: "\<forall>l\<in>set (xs @ zs). \<forall>k. fst (body l error k (xs @ zs)) = xs @ zs"
    proof -
      have n: "L \<notin> set (xs @ zs)" using once zs(2) by auto
      from still onError_keeps[where body = body and e = error and ls = "xs @ zs"]
      obtain c calls where "onError body error (xs @ zs) = Some (c, xs @ zs, calls)"
        "set (called calls) \<subseteq> set (xs @ zs)" by blast
      with n show ?thesis by blast
    qed
    from zs(1) u third show ?thesis by blast
  qed
  from first second show ?thesis by blast
qed

theorem unsubscribe_removes_listener_witness:
  "addErrorListener (2::nat) [1] = ([1, 2], 2)
   \<and> run_ops [1, 2] [Register 3, Register 4, Unsubscribe 4] = [1, 2, 3::nat]
   \<and> unsubscribe 2 [1, 2, 3::nat] = [1, 3]
   \<and> onError quiet (JStr ''x'') [1, 3] =
        Some (Returned, [1, 3], [(1, JStr ''x'', Unknown), (3, JStr ''x'', Unknown)])"
proof -
  have a: "addErrorListener (2::nat) [1] = ([1, 2], 2)"
    by (simp add: addErrorListener_def)
  have r: "run_ops [1, 2] [Register 3, Register 4, Unsubscribe 4] = [1, 2, 3::nat]"
    by (simp add: run_ops_def addErrorListener_def unsubscribe_def splice_def)
  have u: "unsubscribe 2 [1, 2, 3::nat] = [1, 3]"
    by (simp add: unsubscribe_def splice_def)
  have o: "onError quiet (JStr ''x'') [1, 3] =
        Some (Returned, [1, 3], [(1, JStr ''x'', Unknown), (3, JStr ''x'', Unknown)])"
    by (simp add: onError_def classify_def isCancel_def axios_isCancel_def quiet_def
        notify.simps Let_def)
  have l: "\<forall>c. Unsubscribe c \<in> set [Register (3::nat), Register 4, Unsubscribe 4] \<longrightarrow> 2 < c"
    by simp
  from unsubscribe_removes_listener [OF a, where ops = "[Register 3, Register 4, Unsubscribe 4]"
      and body = quiet and error = "JStr ''x''" and cur = "[1, 2, 3::nat]"] l
  obtain zs where zs: "run_ops [1, 2] [Register 3, Register 4, Unsubscribe 4] = [1] @ (2::nat) # zs"
    and imp: "2 \<notin> set [1::nat] \<and> Register 2 \<notin> set [Register (3::nat), Register 4, Unsubscribe 4]
        \<and> (\<forall>l\<in>set ([1] @ zs). \<forall>k. fst (quiet l (JStr ''x'') k ([1] @ zs)) = [1] @ zs)
      \<longrightarrow> 2 \<notin> set ([1] @ zs)
          \<and> (\<exists>c calls. onError quiet (JStr ''x'') ([1] @ zs) = Some (c, [1] @ zs, calls)
                \<and> 2 \<notin> set (called calls))"
    by blast
  have "2 \<notin> set ([1] @ zs)
      \<and> (\<exists>c calls. onError quiet (JStr ''x'') ([1] @ zs) = Some (c, [1] @ zs, calls)
            \<and> 2 \<notin> set (called calls))"
    using imp by (simp add: quiet_def)
  then show ?thesis using a r u o by simp
qed

text \<open>
  C9: the unsubscribe function of \<open>L\<close> is \<^verbatim>\<open>splice(count-1, 1)\<close> at every call: on any
  current sequence it removes the entry at index \<open>count - 1\<close>, if there is one. After
  \<open>L\<close> and then the listeners \<open>zs\<close> have been registered, the first call removes \<open>L\<close> and
  the second call removes the first of \<open>zs\<close>, a listener that is still subscribed; it
  changes nothing only when \<open>zs\<close> is empty.
\<close>

theorem unsubscribe_not_idempotent:
  assumes "addErrorListener L xs = (ys, count)"
  shows "unsubscribe count cur = take (count - 1) cur @ drop count cur
     \<and> unsubscribe count (unsubscribe count (ys @ zs)) = xs @ drop 1 zs"
proof -
  have ys: "ys = xs @ [L]" and count: "count = length xs + 1"
    using assms by (auto simp: addErrorListener_def Let_def)
  show ?thesis by (simp add: ys count unsubscribe_eq)
qed

theorem unsubscribe_not_idempotent_witness:
  "addErrorListener (2::nat) [1] = ([1, 2], 2)
   \<and> unsubscribe 2 [1, 2, 3, 4::nat] = [1, 3, 4]
   \<and> unsubscribe 2 (unsubscribe 2 [1, 2, 3, 4::nat]) = [1, 4]"
proof -
  have a: "addErrorListener (2::nat) [1] = ([1, 2], 2)"
    by (simp add: addErrorListener_def)
  show ?thesis
    using a unsubscribe_not_idempotent [OF a, of "[1, 2, 3, 4::nat]" "[3, 4]"]
      unsubscribe_not_idempotent [OF a, of "[1, 3, 4::nat]" "[3, 4]"]
    by simp
qed

section \<open>The promise and the configuration of a request\<close>

text \<open>
  C3: when the transport's promise is rejected, the promise returned by \<^verbatim>\<open>request\<close> is
  rejected with the same value, whatever the listeners do and however the internal
  \<^verbatim>\<open>onError\<close> run ends; that run is started on the same value.
\<close>

theorem request_rejection_unchanged:
  assumes "client (config (request body client tok errorListeners cfg onProgress)) = Rejected reason"
  shows "promise (request body client tok errorListeners cfg onProgress) = Rejected reason
     \<and> observed (request body client tok errorListeners cfg onProgress)
         = Some (onError body reason errorListeners)"
  using assms by (simp add: request_def Let_def promise_catch_def)

text \<open>
  A transport that rejects with \<^verbatim>\<open>null\<close>: the internal run of \<^verbatim>\<open>onError\<close> throws, and the
  caller's promise is rejected with \<^verbatim>\<open>null\<close> all the same.
\<close>

theorem request_rejection_unchanged_witness:
  "promise (request first_throws (rejecting JNull) 0 [0, 1] [] JUndefined) = Rejected JNull
   \<and> observed (request first_throws (rejecting JNull) 0 [0, 1] [] JUndefined)
        = Some (Some (Threw TypeError, [0, 1], []))"
  using request_rejection_unchanged [of "rejecting JNull" first_throws 0 "[0, 1]" "[]" JUndefined JNull]
  by (simp add: rejecting_def onError_def classify_null)



text \<open>
  C8, as stated, on a configuration in which the caller has set a cancellation token and
  an upload progress handler of its own, with a progress callback passed: after the call
  the caller's object is not the configuration the caller passed, as it would be had
  \<^verbatim>\<open>request\<close> worked on a copy. The caller's token 7 has been replaced by the token of
  this call, the caller's upload handler by the handler of lines 55-57, and three
  properties have been added.
\<close>

theorem request_replaces_caller_fields_counterexample:
  "caller_config (request quiet (rejecting JNull) 0 []
      [(''url'', JStr ''/a''), (''cancelToken'', JCancelToken 7),
       (''onUploadProgress'', JFun (HostFn 1))]
      (JFun (HostFn 2)))
     = [(''url'', JStr ''/a''), (''cancelToken'', JCancelToken 0),
        (''onUploadProgress'', JProgressHandler (JFun (HostFn 2))),
        (''paramsSerializer'', JFun UrlEncodeFn),
        (''transformRequest'', JFun ConvertToFormDataFn),
        (''onDownloadProgress'', JProgressHandler (JFun (HostFn 2)))]
   \<and> caller_config (request quiet (rejecting JNull) 0 []
      [(''url'', JStr ''/a''), (''cancelToken'', JCancelToken 7),
       (''onUploadProgress'', JFun (HostFn 1))]
      (JFun (HostFn 2)))
     \<noteq> [(''url'', JStr ''/a''), (''cancelToken'', JCancelToken 7),
         (''onUploadProgress'', JFun (HostFn 1))]"
  by (simp add: request_def Let_def obj_set_def obj_get_def)

text \<open>
  C8, amended: \<^verbatim>\<open>request\<close> makes no copy. The object it submits is the caller's object,
  and after the call that object holds the token of this call as \<^verbatim>\<open>cancelToken\<close>, whatever
  it held before; the handler of this call as \<^verbatim>\<open>onUploadProgress\<close> and
  \<^verbatim>\<open>onDownloadProgress\<close> when a progress callback is passed, and what it held before
  when none is; \<^verbatim>\<open>urlEncode\<close> and \<^verbatim>\<open>convertToFormData\<close> where the serializer or the
  transform was missing, and the caller's hook where it was supplied. Every other field
  is what it was before the call, present or absent.
\<close>

theorem request_writes_in_place:
  "caller_config (request body client tok errorListeners cfg onProgress)
      = config (request body client tok errorListeners cfg onProgress)
   \<and> (p \<notin> set hook_fields \<longrightarrow>
        map_of (caller_config (request body client tok errorListeners cfg onProgress)) p
          = map_of cfg p)
   \<and> obj_get (caller_config (request body client tok errorListeners cfg onProgress))
        ''cancelToken'' = JCancelToken tok
   \<and> (truthy onProgress \<longrightarrow>
        obj_get (caller_config (request body client tok errorListeners cfg onProgress))
          ''onUploadProgress'' = JProgressHandler onProgress
        \<and> obj_get (caller_config (request body client tok errorListeners cfg onProgress))
          ''onDownloadProgress'' = JProgressHandler onProgress)
   \<and> (\<not> truthy onProgress \<longrightarrow>
        map_of (caller_config (request body client tok errorListeners cfg onProgress))
          ''onUploadProgress'' = map_of cfg ''onUploadProgress''
        \<and> map_of (caller_config (request body client tok errorListeners cfg onProgress))
          ''onDownloadProgress'' = map_of cfg ''onDownloadProgress'')
   \<and> (truthy (obj_get cfg ''paramsSerializer'') \<longrightarrow>
        map_of (caller_config (request body client tok errorListeners cfg onProgress))
          ''paramsSerializer'' = map_of cfg ''paramsSerializer'')
   \<and> (\<not> truthy (obj_get cfg ''paramsSerializer'') \<longrightarrow>
        obj_get (caller_config (request body client tok errorListeners cfg onProgress))
          ''paramsSerializer'' = JFun UrlEncodeFn)
   \<and> (truthy (obj_get cfg ''transformRequest'') \<longrightarrow>
        map_of (caller_config (request body client tok errorListeners cfg onProgress))
          ''transformRequest'' = map_of cfg ''transformRequest'')
   \<and> (\<not> truthy (obj_get cfg ''transformRequest'') \<longrightarrow>
        obj_get (caller_config (request body client tok errorListeners cfg onProgress))
          ''transformRequest'' = JFun ConvertToFormDataFn)"
  by (simp add: request_def Let_def obj_set_def obj_get_def hook_fields_def update_conv')

theorem request_writes_in_place_witness:
  "map_of (caller_config (request quiet (rejecting JNull) 0 []
       [(''url'', JStr ''/a''), (''paramsSerializer'', JFun (HostFn 3))] JUndefined)) ''url''
     = Some (JStr ''/a'')
   \<and> obj_get (caller_config (request quiet (rejecting JNull) 0 []
       [(''url'', JStr ''/a''), (''paramsSerializer'', JFun (HostFn 3))] JUndefined))
       ''cancelToken'' = JCancelToken 0
   \<and> map_of (caller_config (request quiet (rejecting JNull) 0 []
       [(''url'', JStr ''/a''), (''paramsSerializer'', JFun (HostFn 3))] JUndefined))
       ''onUploadProgress'' = None
   \<and> map_of (caller_config (request quiet (rejecting JNull) 0 []
       [(''url'', JStr ''/a''), (''paramsSerializer'', JFun (HostFn 3))] JUndefined))
       ''paramsSerializer'' = Some (JFun (HostFn 3))
   \<and> obj_get (caller_config (request quiet (rejecting JNull) 0 []
       [(''url'', JStr ''/a''), (''paramsSerializer'', JFun (HostFn 3))] JUndefined))
       ''transformRequest'' = JFun ConvertToFormDataFn
   \<and> obj_get (caller_config (request quiet (rejecting JNull) 0 []
       [(''url'', JStr ''/a'')] (JFun (HostFn 2)))) ''onDownloadProgress''
     = JProgressHandler (JFun (HostFn 2))"
  using request_writes_in_place [of quiet "rejecting JNull" 0 "[]"
      "[(''url'', JStr ''/a''), (''paramsSerializer'', JFun (HostFn 3))]" JUndefined "''url''"]
    request_writes_in_place [of quiet "rejecting JNull" 0 "[]"
      "[(''url'', JStr ''/a'')]" "JFun (HostFn 2)" "''url''"]
  by (simp add: hook_fields_def request_def Let_def obj_set_def obj_get_def)

section \<open>Entries of the form body\<close>

lemma append_elements_eq:
  "append_elements stored name xs i fd
     = fd @ map (\<lambda>x. (name @ ''[]'', stored x)) (drop i xs)"
proof (induction stored name xs i fd rule: append_elements.induct)
  case (1 stored name xs i fd)
  show ?case
  proof (cases "i < length xs")
    case True
    then have "drop i xs = xs ! i # drop (i + 1) xs"
      by (simp add: Cons_nth_drop_Suc)
    with True 1 show ?thesis
      by (subst append_elements.simps) (simp add: formData_append_def)
  next
    case False
    then show ?thesis by (subst append_elements.simps) simp
  qed
qed

lemma entries_set:
  "entries k (formData_set stored fd name v)
     = (if name = k then [(name, stored v)] else entries k fd)"
proof (induction fd)
  case Nil
  show ?case by (simp add: entries_def)
next
  case (Cons e es)
  have "filter (\<lambda>e. fst e = k) (filter (\<lambda>e'. fst e' \<noteq> k) es) = []"
    by (induction es) auto
  moreover have "name \<noteq> k \<Longrightarrow>
      filter (\<lambda>e. fst e = k) (filter (\<lambda>e'. fst e' \<noteq> name) es) = filter (\<lambda>e. fst e = k) es"
    by (induction es) auto
  ultimately show ?case using Cons by (auto simp: entries_def)
qed

lemma entries_append_elements:
  "entries k (append_elements stored name xs 0 fd) =
     entries k fd @ (if name @ ''[]'' = k then map (\<lambda>x. (k, stored x)) xs else [])"
  by (auto simp: append_elements_eq entries_def filter_map o_def)

lemma entries_convert_other:
  "\<forall>(g, w)\<in>set ps. form_key g w \<noteq> k \<Longrightarrow>
     entries k (convert_fields stored ps fd) = entries k fd"
proof (induction ps arbitrary: fd)
  case Nil
  show ?case by simp
next
  case (Cons a ps)
  obtain g w where a: "a = (g, w)" by (cases a)
  have k: "form_key g w \<noteq> k" using Cons.prems a by simp
  have rest: "\<forall>(g, w)\<in>set ps. form_key g w \<noteq> k" using Cons.prems by simp
  show ?case
  proof (cases "list_elements w")
    case None
    with k have "g \<noteq> k" by (simp add: form_key_def)
    then show ?thesis using a None Cons.IH[OF rest] by (simp add: entries_set)
  next
    case (Some xs)
    with k have "g @ ''[]'' \<noteq> k" by (simp add: form_key_def)
    then show ?thesis using a Some Cons.IH[OF rest] by (simp add: entries_append_elements)
  qed
qed

lemma convert_fields_append:
  "convert_fields stored (ps @ qs) fd = convert_fields stored qs (convert_fields stored ps fd)"
  by (induction ps arbitrary: fd) auto

text \<open>
  C5, as stated, on a payload with a list field \<open>f\<close> of two elements and a scalar field
  named \<open>f[]\<close>. With the list first, \<^verbatim>\<open>set\<close> replaces the two entries appended under
  \<open>f[]\<close> by the scalar: one entry, not two. With the scalar first, the two elements are
  appended after it: three entries under \<open>f[]\<close>, not two for the list and not one for the
  scalar.
\<close>

theorem convertToFormData_collision_counterexample:
  "entries ''f[]''
     (convertToFormData stored_text
        [(''f'', JArr [JStr ''a'', JStr ''b'']), (''f[]'', JStr ''x'')] JUndefined)
     = [(''f[]'', FormString ''x'')]
   \<and> entries ''f[]''
     (convertToFormData stored_text
        [(''f[]'', JStr ''x''), (''f'', JArr [JStr ''a'', JStr ''b''])] JUndefined)
     = [(''f[]'', FormString ''x''), (''f[]'', FormString ''a''), (''f[]'', FormString ''b'')]"
  by (simp add: convertToFormData_def append_elements.simps formData_append_def entries_def)

text \<open>
  C5, amended: in a plain payload, a field \<open>f\<close> that no other field shares its form key
  with (no scalar field is named \<open>f[]\<close> beside a list field \<open>f\<close>) yields, when its value
  is a list of \<open>n\<close> elements, exactly \<open>n\<close> entries under \<open>f[]\<close>, which hold what
  \<^verbatim>\<open>FormData\<close> stores for the elements, in element order, and otherwise exactly one entry
  under \<open>f\<close>, which holds what \<^verbatim>\<open>FormData\<close> stores for its value.
\<close>

theorem convertToFormData_entries:
  assumes d: "distinct (map fst data)"
    and m: "(f, v) \<in> set data"
    and o: "\<forall>(g, w)\<in>set data. (g, w) \<noteq> (f, v) \<longrightarrow> form_key g w \<noteq> form_key f v"
  shows "entries (form_key f v) (convertToFormData stored data headers) =
     (case list_elements v of
        Some xs \<Rightarrow> map (\<lambda>x. (f @ ''[]'', stored x)) xs
      | None \<Rightarrow> [(f, stored v)])"
proof -
  from m obtain pre post where sp: "data = pre @ (f, v) # post"
    by (auto dest: split_list)
  have npre: "(f, v) \<notin> set pre" and npost: "(f, v) \<notin> set post"
    using d sp by (auto simp: rev_image_eqI)
  have pre: "\<forall>(g, w)\<in>set pre. form_key g w \<noteq> form_key f v"
    using o npre sp by auto
  have post: "\<forall>(g, w)\<in>set post. form_key g w \<noteq> form_key f v"
    using o npost sp by auto
  have e0: "entries (form_key f v) (convert_fields stored pre []) = []"
    using entries_convert_other[OF pre, of stored "[]"] by (simp add: entries_def)
  show ?thesis
  proof (cases "list_elements v")
    case None
    then show ?thesis
      using entries_convert_other[OF post, of stored]
      by (simp add: convertToFormData_def sp convert_fields_append entries_set form_key_def)
  next
    case (Some xs)
    then show ?thesis
      using entries_convert_other[OF post, of stored] e0
      by (simp add: convertToFormData_def sp convert_fields_append entries_append_elements
          form_key_def)
  qed
qed

text \<open>
  A payload with a list of two strings, a number and a string: two entries for the list,
  one entry with the string, and one entry with the numeral of the number, not the
  number.
\<close>

theorem convertToFormData_entries_witness:
  "entries ''tags[]''
     (convertToFormData stored_text
        [(''tags'', JArr [JStr ''a'', JStr ''b'']), (''n'', JNum (Fin 5)), (''name'', JStr ''x'')]
        JUndefined)
     = [(''tags[]'', FormString ''a''), (''tags[]'', FormString ''b'')]
   \<and> entries ''n''
     (convertToFormData stored_text
        [(''tags'', JArr [JStr ''a'', JStr ''b'']), (''n'', JNum (Fin 5)), (''name'', JStr ''x'')]
        JUndefined)
     = [(''n'', FormString ''5'')]
   \<and> entries ''name''
     (convertToFormData stored_text
        [(''tags'', JArr [JStr ''a'', JStr ''b'']), (''n'', JNum (Fin 5)), (''name'', JStr ''x'')]
        JUndefined)
     = [(''name'', FormString ''x'')]"
  using convertToFormData_entries [where stored = stored_text and headers = JUndefined
      and data = "[(''tags'', JArr [JStr ''a'', JStr ''b'']), (''n'', JNum (Fin 5)), (''name'', JStr ''x'')]"
      and f = "''tags''" and v = "JArr [JStr ''a'', JStr ''b'']"]
    convertToFormData_entries [where stored = stored_text and headers = JUndefined
      and data = "[(''tags'', JArr [JStr ''a'', JStr ''b'']), (''n'', JNum (Fin 5)), (''name'', JStr ''x'')]"
      and f = "''n''" and v = "JNum (Fin 5)"]
    convertToFormData_entries [where stored = stored_text and headers = JUndefined
      and data = "[(''tags'', JArr [JStr ''a'', JStr ''b'']), (''n'', JNum (Fin 5)), (''name'', JStr ''x'')]"
      and f = "''name''" and v = "JStr ''x''"]
  by (simp add: form_key_def decimal.simps)

section \<open>Rounding to binary64\<close>

lemma pow2_diff: "(2::rat) powi (m - n) = 2 powi m / 2 powi n"
  by (simp add: power_int_diff)

lemma pow2_add: "(2::rat) powi (m + n) = 2 powi m * 2 powi n"
  by (simp add: power_int_add)

lemma bitlen_lower: "0 < a \<Longrightarrow> (2::rat) powi (bitlen a - 1) \<le> of_int a"
proof -
  assume a: "0 < a"
  then have "1 \<le> bitlen a" by (auto simp: bitlen_alt_def)
  then have "(2::rat) powi (bitlen a - 1) = 2 ^ nat (bitlen a - 1)"
    by (simp add: power_int_def)
  also have "\<dots> = of_int (2 ^ nat (bitlen a - 1))" by simp
  also have "\<dots> \<le> of_int a" using bitlen_bounds[OF a] by (subst of_int_le_iff) simp
  finally show ?thesis .
qed

lemma bitlen_upper: "0 < a \<Longrightarrow> of_int a < (2::rat) powi (bitlen a)"
proof -
  assume a: "0 < a"
  have "(of_int a :: rat) < of_int (2 ^ nat (bitlen a))"
    using bitlen_bounds[OF a] by (subst of_int_less_iff) simp
  also have "\<dots> = 2 powi (bitlen a)"
    using bitlen_nonneg[of a] by (simp add: power_int_def)
  finally show ?thesis .
qed

lemma floor_log2_bounds:
  assumes q: "0 < q"
  shows "2 powi (floor_log2 q) \<le> q \<and> q < 2 powi (floor_log2 q + 1)"
proof -
  obtain a b where ab: "quotient_of q = (a, b)" by (cases "quotient_of q")
  then have b: "0 < b" by (rule quotient_of_denom_pos)
  have qe: "q = of_int a / of_int b" using ab by (rule quotient_of_div)
  have a: "0 < a" using q b qe by (simp add: zero_less_divide_iff)
  let ?d = "bitlen a - bitlen b"
  have lo: "(2::rat) powi (?d - 1) \<le> q"
  proof -
    have "?d - 1 = (bitlen a - 1) - bitlen b" by simp
    then have "(2::rat) powi (?d - 1) = 2 powi (bitlen a - 1) / 2 powi (bitlen b)"
      by (simp only: pow2_diff)
    also have "\<dots> \<le> of_int a / 2 powi (bitlen b)"
      using bitlen_lower[OF a] by (simp add: divide_right_mono)
    also have "\<dots> \<le> of_int a / of_int b"
      using bitlen_upper[OF b] a b by (intro divide_left_mono) auto
    finally show ?thesis using qe by simp
  qed
  have hi: "q < (2::rat) powi (?d + 1)"
  proof -
    have "q = of_int a / of_int b" by (rule qe)
    also have "\<dots> < 2 powi (bitlen a) / of_int b"
      using bitlen_upper[OF a] b by (simp add: divide_strict_right_mono)
    also have "\<dots> \<le> 2 powi (bitlen a) / 2 powi (bitlen b - 1)"
      using bitlen_lower[OF b] b by (intro divide_left_mono) auto
    also have "\<dots> = 2 powi (bitlen a - (bitlen b - 1))"
      by (simp only: pow2_diff)
    also have "bitlen a - (bitlen b - 1) = ?d + 1" by simp
    finally show ?thesis .
  qed
  show ?thesis
  proof (cases "(2::rat) powi ?d \<le> q")
    case True
    then have "floor_log2 q = ?d" by (simp add: floor_log2_def ab Let_def)
    with True hi show ?thesis by simp
  next
    case False
    then have "floor_log2 q = ?d - 1" by (simp add: floor_log2_def ab Let_def)
    with False lo show ?thesis by simp
  qed
qed

lemma pow2_less_imp: "(2::rat) powi m < 2 powi n \<Longrightarrow> m < n"
  using power_int_increasing[of n m "2::rat"] by (cases "m < n") auto

lemma floor_log2_eqI:
  assumes "2 powi e \<le> q" and "q < 2 powi (e + 1)"
  shows "floor_log2 q = e"
proof -
  have "0 < (2::rat) powi e" by simp
  then have q: "0 < q" using assms(1) by (rule less_le_trans)
  from floor_log2_bounds[OF q] assms
  have "(2::rat) powi (floor_log2 q) < 2 powi (e + 1)" and "(2::rat) powi e < 2 powi (floor_log2 q + 1)"
    by simp_all
  then have "floor_log2 q < e + 1" and "e < floor_log2 q + 1"
    by (auto dest: pow2_less_imp)
  then show ?thesis by simp
qed

lemma floor_log2_mono:
  assumes "0 < q1" and "q1 \<le> q2"
  shows "floor_log2 q1 \<le> floor_log2 q2"
proof -
  have "0 < q2" using assms by simp
  from floor_log2_bounds[OF assms(1)] floor_log2_bounds[OF this] assms(2)
  have "(2::rat) powi (floor_log2 q1) < 2 powi (floor_log2 q2 + 1)" by simp
  then show ?thesis by (auto dest: pow2_less_imp)
qed

lemma round_half_even_of_int: "round_half_even (of_int k) = k"
  by (simp add: round_half_even_def)

lemma round_half_even_mono:
  assumes "x \<le> y"
  shows "round_half_even x \<le> round_half_even y"
proof (cases "\<lfloor>x\<rfloor> = \<lfloor>y\<rfloor>")
  case True
  then show ?thesis using assms by (auto simp: round_half_even_def Let_def)
next
  case False
  then have "\<lfloor>x\<rfloor> + 1 \<le> \<lfloor>y\<rfloor>"
    using floor_mono[OF assms] by simp
  moreover have "round_half_even x \<le> \<lfloor>x\<rfloor> + 1" by (simp add: round_half_even_def Let_def)
  moreover have "\<lfloor>y\<rfloor> \<le> round_half_even y" by (simp add: round_half_even_def Let_def)
  ultimately show ?thesis by simp
qed

lemma ulp_pos: "0 < ulp q"
  by (simp add: ulp_def)

lemma nearest_upper:
  assumes q: "0 < q"
  shows "nearest q \<le> 2 powi (max (floor_log2 q) (- 1022) + 1)"
proof -
  let ?E = "max (floor_log2 q) (- 1022)"
  have "q < 2 powi (floor_log2 q + 1)" using floor_log2_bounds[OF q] by simp
  also have "\<dots> \<le> 2 powi (?E + 1)" by (intro power_int_increasing) auto
  finally have "q / ulp q < 2 powi (?E + 1) / ulp q"
    using ulp_pos by (simp add: divide_strict_right_mono)
  also have "2 powi (?E + 1) / ulp q = 2 powi ((?E + 1) - (?E - 52))"
    unfolding ulp_def by (simp only: pow2_diff)
  also have "(?E + 1) - (?E - 52) = 53" by simp
  also have "(2::rat) powi 53 = of_int (2 ^ 53)" by simp
  finally have "round_half_even (q / ulp q) \<le> 2 ^ 53"
    using round_half_even_mono[of "q / ulp q" "of_int (2 ^ 53)"]
    by (simp only: round_half_even_of_int less_imp_le)
  then have "(of_int (round_half_even (q / ulp q)) :: rat) \<le> of_int (2 ^ 53)"
    by (simp only: of_int_le_iff)
  then have "nearest q \<le> of_int (2 ^ 53) * ulp q"
    unfolding nearest_def using ulp_pos[of q] by (intro mult_right_mono) auto
  also have "of_int (2 ^ 53) * ulp q = 2 powi 53 * 2 powi (?E - 52)"
    by (simp add: ulp_def)
  also have "\<dots> = 2 powi (53 + (?E - 52))" by (simp only: pow2_add)
  also have "53 + (?E - 52) = ?E + 1" by simp
  finally show ?thesis .
qed

lemma nearest_lower:
  assumes q: "0 < q" and e: "- 1022 \<le> floor_log2 q"
  shows "2 powi (floor_log2 q) \<le> nearest q"
proof -
  let ?e = "floor_log2 q"
  have u: "ulp q = 2 powi (?e - 52)" using e by (simp add: ulp_def max_def)
  have "(of_int (2 ^ 52) :: rat) = 2 powi 52" by simp
  also have "52 = ?e - (?e - 52)" by simp
  also have "(2::rat) powi (?e - (?e - 52)) = 2 powi ?e / ulp q"
    unfolding u by (simp only: pow2_diff)
  also have "\<dots> \<le> q / ulp q"
    using floor_log2_bounds[OF q] ulp_pos[of q] by (simp add: divide_right_mono)
  finally have "2 ^ 52 \<le> round_half_even (q / ulp q)"
    using round_half_even_mono[of "of_int (2 ^ 52)" "q / ulp q"]
    by (simp only: round_half_even_of_int)
  then have "(of_int (2 ^ 52) :: rat) \<le> of_int (round_half_even (q / ulp q))"
    by (simp only: of_int_le_iff)
  then have "of_int (2 ^ 52) * ulp q \<le> nearest q"
    unfolding nearest_def using ulp_pos[of q] by (intro mult_right_mono) auto
  moreover have "of_int (2 ^ 52) * ulp q = 2 powi 52 * 2 powi (?e - 52)"
    by (simp add: u)
  moreover have "\<dots> = 2 powi (52 + (?e - 52))" by (simp only: pow2_add)
  moreover have "52 + (?e - 52) = ?e" by simp
  ultimately show ?thesis by simp
qed

lemma nearest_mono:
  assumes q1: "0 < q1" and le: "q1 \<le> q2"
  shows "nearest q1 \<le> nearest q2"
proof -
  have q2: "0 < q2" using assms by simp
  let ?E1 = "max (floor_log2 q1) (- 1022)" and ?E2 = "max (floor_log2 q2) (- 1022)"
  have E: "?E1 \<le> ?E2" using floor_log2_mono[OF q1 le] by simp
  show ?thesis
  proof (cases "?E1 = ?E2")
    case True
    then have u: "ulp q1 = ulp q2" by (simp add: ulp_def)
    have "q1 / ulp q2 \<le> q2 / ulp q2"
      using le ulp_pos[of q2] by (simp add: divide_right_mono)
    then have "round_half_even (q1 / ulp q2) \<le> round_half_even (q2 / ulp q2)"
      by (rule round_half_even_mono)
    then have "(of_int (round_half_even (q1 / ulp q2)) :: rat) \<le> of_int (round_half_even (q2 / ulp q2))"
      by (simp only: of_int_le_iff)
    then show ?thesis
      unfolding nearest_def u using ulp_pos[of q2] by (intro mult_right_mono) auto
  next
    case False
    with E have lt: "?E1 + 1 \<le> ?E2" by simp
    then have e2: "- 1022 \<le> floor_log2 q2" and E2: "?E2 = floor_log2 q2" by auto
    have "nearest q1 \<le> 2 powi (?E1 + 1)" by (rule nearest_upper[OF q1])
    also have "\<dots> \<le> 2 powi ?E2" using lt by (intro power_int_increasing) auto
    also have "\<dots> \<le> nearest q2" unfolding E2 by (rule nearest_lower[OF q2 e2])
    finally show ?thesis .
  qed
qed

lemma nearest_of_nat:
  assumes n: "0 < n" and b: "n < 2 ^ 53"
  shows "nearest (of_nat n) = of_nat n"
proof -
  let ?q = "of_nat n :: rat"
  have q: "0 < ?q" using n by simp
  let ?e = "floor_log2 ?q"
  have "1 \<le> ?q" using n by simp
  then have "(2::rat) powi 0 \<le> ?q" by simp
  also have "?q < 2 powi (?e + 1)" using floor_log2_bounds[OF q] by simp
  finally have "(2::rat) powi 0 < 2 powi (?e + 1)" .
  from pow2_less_imp[OF this] have e0: "0 \<le> ?e" by simp
  have "(2::rat) powi ?e \<le> ?q" using floor_log2_bounds[OF q] by simp
  also have "?q < of_nat (2 ^ 53)" using b by (simp only: of_nat_less_iff)
  also have "(of_nat (2 ^ 53) :: rat) = 2 powi 53" by simp
  finally have "(2::rat) powi ?e < 2 powi 53" .
  from pow2_less_imp[OF this] have e52: "?e \<le> 52" by simp
  have u: "ulp ?q = 2 powi (?e - 52)" using e0 by (simp add: ulp_def max_def)
  have "1 / ulp ?q = 2 powi (0 - (?e - 52))"
    unfolding u by (simp only: pow2_diff power_int_0_right)
  also have "0 - (?e - 52) = 52 - ?e" by simp
  also have "(2::rat) powi (52 - ?e) = 2 ^ nat (52 - ?e)" using e52 by (simp add: power_int_def)
  also have "\<dots> = of_int (2 ^ nat (52 - ?e))" by simp
  finally have iu: "1 / ulp ?q = of_int (2 ^ nat (52 - ?e))" .
  have "?q / ulp ?q = ?q * (1 / ulp ?q)" by simp
  also have "\<dots> = of_int (int n * 2 ^ nat (52 - ?e))" unfolding iu by simp
  finally have "round_half_even (?q / ulp ?q) = int n * 2 ^ nat (52 - ?e)"
    by (simp only: round_half_even_of_int)
  then have "nearest ?q = of_int (int n * 2 ^ nat (52 - ?e)) * ulp ?q"
    by (simp add: nearest_def)
  also have "\<dots> = ?q * ((1 / ulp ?q) * ulp ?q)" unfolding iu by simp
  also have "\<dots> = ?q" using ulp_pos[of ?q] by simp
  finally show ?thesis .
qed

lemma nearest_nonneg:
  assumes "0 < q"
  shows "0 \<le> nearest q"
proof -
  have "0 \<le> q / ulp q" using assms ulp_pos[of q] by simp
  then have "round_half_even (of_int 0) \<le> round_half_even (q / ulp q)"
    by (intro round_half_even_mono) simp
  then have "0 \<le> round_half_even (q / ulp q)"
    by (simp only: round_half_even_of_int)
  then show ?thesis
    unfolding nearest_def using ulp_pos[of q] by simp
qed

lemma round_pos_finite:
  assumes q: "0 < q" and b: "q < 2 powi 1023"
  shows "round_pos q = Fin (nearest q)"
proof -
  have "(2::rat) powi (floor_log2 q) < 2 powi 1023"
    using floor_log2_bounds[OF q] b by simp
  from pow2_less_imp[OF this] have "max (floor_log2 q) (- 1022) + 1 \<le> 1023" by simp
  then have "(2::rat) powi (max (floor_log2 q) (- 1022) + 1) \<le> 2 powi 1023"
    by (intro power_int_increasing) auto
  with nearest_upper[OF q] have "nearest q \<le> 2 powi 1023" by simp
  also have "(2::rat) powi 1023 < 2 powi 1024"
    by (intro power_int_strict_increasing) auto
  finally show ?thesis by (simp add: round_pos_def)
qed

lemma round_double_of_nat:
  assumes "n < 2 ^ 53"
  shows "round_double (of_nat n) = Fin (of_nat n)"
proof (cases "n = 0")
  case True
  then show ?thesis by (simp add: round_double_def)
next
  case False
  then have n: "0 < n" by simp
  have "(of_nat n :: rat) < of_nat (2 ^ 53)" using assms by (simp only: of_nat_less_iff)
  also have "(of_nat (2 ^ 53) :: rat) = 2 powi 53" by simp
  also have "(2::rat) powi 53 < 2 powi 1023"
    by (intro power_int_strict_increasing) auto
  finally have "round_pos (of_nat n) = Fin (nearest (of_nat n))"
    using n by (intro round_pos_finite) auto
  then show ?thesis using n nearest_of_nat[OF n assms] by (simp add: round_double_def)
qed

lemma round_double_range:
  assumes q: "0 \<le> q" and le: "q \<le> of_nat c" and c: "c < 2 ^ 53"
  shows "\<exists>r. round_double q = Fin r \<and> 0 \<le> r \<and> r \<le> of_nat c"
proof (cases "q = 0")
  case True
  then show ?thesis by (simp add: round_double_def)
next
  case False
  then have q0: "0 < q" using q by simp
  then have c0: "0 < c" using le by (cases "c = 0") auto
  have "Fin (nearest (of_nat c)) = round_double (of_nat c)"
    using c0 c round_double_of_nat[OF c] nearest_of_nat[OF c0 c] by simp
  have "(of_nat c :: rat) < of_nat (2 ^ 53)" using c by (simp only: of_nat_less_iff)
  also have "(of_nat (2 ^ 53) :: rat) = 2 powi 53" by simp
  also have "(2::rat) powi 53 < 2 powi 1023"
    by (intro power_int_strict_increasing) auto
  finally have "q < 2 powi 1023" using le by simp
  then have "round_pos q = Fin (nearest q)" using q0 by (intro round_pos_finite)
  moreover have "nearest q \<le> of_nat c"
    using nearest_mono[OF q0 le] nearest_of_nat[OF c0 c] by simp
  ultimately show ?thesis using q0 nearest_nonneg[OF q0] by (simp add: round_double_def)
qed

lemma number_finite:
  assumes b: "n < 2 ^ 64"
  shows "\<exists>r. round_double (of_nat n) = Fin r \<and> 0 \<le> r \<and> (0 < n \<longrightarrow> 1 \<le> r)
     \<and> r = (if n = 0 then 0 else nearest (of_nat n))"
proof (cases "n = 0")
  case True
  then show ?thesis by (simp add: round_double_def)
next
  case False
  let ?q = "of_nat n :: rat"
  have n: "0 < n" using False by simp
  then have q1: "1 \<le> ?q" by simp
  then have q0: "0 < ?q" by simp
  have "?q < of_nat (2 ^ 64)" using b by (simp only: of_nat_less_iff)
  also have "(of_nat (2 ^ 64) :: rat) = 2 powi 64" by simp
  also have "(2::rat) powi 64 < 2 powi 1023"
    by (intro power_int_strict_increasing) auto
  finally have f: "round_pos ?q = Fin (nearest ?q)" using q0 by (intro round_pos_finite)
  have "nearest (of_nat 1) \<le> nearest ?q"
    using q1 by (intro nearest_mono) auto
  then have "1 \<le> nearest ?q" using nearest_of_nat[of 1] by simp
  then show ?thesis using f q0 False by (simp add: round_double_def)
qed

lemma number_mono:
  assumes "m \<le> n" and "n < 2 ^ 64"
    and "round_double (of_nat m) = Fin x" and "round_double (of_nat n) = Fin y"
  shows "x \<le> y"
proof (cases "m = 0")
  case True
  then show ?thesis using assms number_finite[of n] by (auto simp: round_double_def)
next
  case False
  then have m: "0 < m" and n: "n \<noteq> 0" using assms(1) by auto
  have "m < 2 ^ 64" using assms(1,2) by simp
  moreover have "nearest (of_nat m) \<le> nearest (of_nat n)"
    using m assms(1) by (intro nearest_mono) auto
  ultimately show ?thesis
    using assms False n number_finite[of m] number_finite[of n] by auto
qed

lemma normalizeProgress_range:
  assumes lc: "lengthComputable e" and t: "total e \<noteq> 0" and le: "loaded e \<le> total e"
  shows "\<exists>n. 0 \<le> n \<and> n \<le> 100 \<and> normalizeProgress e = [Fin (of_int n)]"
proof -
  define l where "l = unat (loaded e)"
  define u where "u = unat (total e)"
  have u64: "u < 2 ^ 64" unfolding u_def using unsigned_less[of "total e"] by simp
  have lu: "l \<le> u" unfolding l_def u_def using le by (simp add: word_le_nat_alt)
  then have l64: "l < 2 ^ 64" using u64 by simp
  have u0: "0 < u" unfolding u_def using t by (simp add: unat_gt_0)
  obtain x where x: "round_double (of_nat l) = Fin x" "0 \<le> x"
    using number_finite[OF l64] by blast
  obtain y where y: "round_double (of_nat u) = Fin y" "1 \<le> y"
    using number_finite[OF u64] u0 by blast
  have xy: "x \<le> y" using number_mono[OF lu u64 x(1) y(1)] .
  have "0 \<le> x / y" and "x / y \<le> of_nat 1" using x(2) y(2) xy by simp_all
  from round_double_range[OF this] obtain r
    where r: "round_double (x / y) = Fin r" "0 \<le> r" "r \<le> 1" by auto
  have d: "js_div (Fin x) (Fin y) = Fin r" using y(2) r(1) by simp
  have "0 \<le> r * 100" and "r * 100 \<le> of_nat 100" using r by simp_all
  from round_double_range[OF this] obtain p
    where p: "round_double (r * 100) = Fin p" "0 \<le> p" "p \<le> 100" by auto
  have m: "js_mul (Fin r) (Fin 100) = Fin p" using p(1) by simp
  let ?n = "\<lfloor>p + 1 / 2\<rfloor>"
  have "0 \<le> ?n" using p(2) by simp
  moreover have "?n \<le> 100" using p(3) by (simp add: floor_le_iff)
  moreover have "to_number (loaded e) = Fin x" "to_number (total e) = Fin y"
    using x(1) y(1) by (simp_all only: to_number_def l_def u_def)
  then have "normalizeProgress e = [Fin (of_int ?n)]"
    using lc d m by (simp add: normalizeProgress_def)
  ultimately show ?thesis by blast
qed

text \<open>
  The arithmetic is that of doubles: for 29 of 200 bytes the quotient and the product
  are rounded, the product is a little below 14.5, and the percentage is 14 where the
  exact quotient would give 15.
\<close>

lemma floor_log2_29_200: "floor_log2 (29 / 200) = - 3"
  by (rule floor_log2_eqI) simp_all

lemma round_half_even_29_200: "round_half_even (130604389193744384 / 25) = 5224175567749775"
proof -
  have f: "\<lfloor>(130604389193744384::rat) / 25\<rfloor> = 5224175567749775"
    by (simp add: floor_eq_iff)
  show ?thesis unfolding round_half_even_def Let_def f by simp
qed

lemma nearest_29_200: "nearest (29 / 200) = 5224175567749775 / 36028797018963968"
  by (simp add: nearest_def ulp_def floor_log2_29_200 round_half_even_29_200)

lemma floor_log2_14_5: "floor_log2 (130604389193744375 / 9007199254740992) = 3"
  by (rule floor_log2_eqI) simp_all

lemma round_half_even_14_5: "round_half_even (130604389193744375 / 16) = 8162774324609023"
proof -
  have f: "\<lfloor>(130604389193744375::rat) / 16\<rfloor> = 8162774324609023"
    by (simp add: floor_eq_iff)
  show ?thesis unfolding round_half_even_def Let_def f by simp
qed

lemma nearest_14_5: "nearest (130604389193744375 / 9007199254740992) = 8162774324609023 / 562949953421312"
  by (simp add: nearest_def ulp_def floor_log2_14_5 round_half_even_14_5)

lemma normalizeProgress_29_of_200: "normalizeProgress \<lparr> lengthComputable = True, loaded = 29, total = 200 \<rparr> = [Fin 14]"
proof -
  have a: "round_double 29 = Fin 29" using round_double_of_nat[of 29] by simp
  have b: "round_double 200 = Fin 200" using round_double_of_nat[of 200] by simp
  have c: "round_double (29 / 200) = Fin (5224175567749775 / 36028797018963968)"
    using round_pos_finite[of "29 / 200"] by (simp add: round_double_def nearest_29_200)
  have d: "round_double (130604389193744375 / 9007199254740992) = Fin (8162774324609023 / 562949953421312)"
    using round_pos_finite[of "130604389193744375 / 9007199254740992"] by (simp add: round_double_def nearest_14_5)
  show ?thesis using c d by (simp add: normalizeProgress_def to_number_def a b floor_eq_iff)
qed

section \<open>Percentages\<close>

text \<open>
  C7, as stated, on an event with a computable total and more bytes loaded than the
  total announces (a response that is decompressed on the way): the callback gets 200.
  With a total of 0 it gets NaN.
\<close>

theorem normalizeProgress_range_counterexample:
  "normalizeProgress \<lparr> lengthComputable = True, loaded = 200, total = 100 \<rparr> = [Fin 200]
   \<and> normalizeProgress \<lparr> lengthComputable = True, loaded = 0, total = 0 \<rparr> = [NaN]"
proof -
  have a: "round_double 200 = Fin 200" using round_double_of_nat[of 200] by simp
  have b: "round_double 100 = Fin 100" using round_double_of_nat[of 100] by simp
  have c: "round_double 2 = Fin 2" using round_double_of_nat[of 2] by simp
  have "normalizeProgress \<lparr> lengthComputable = True, loaded = 200, total = 100 \<rparr> = [Fin 200]"
    by (simp add: normalizeProgress_def to_number_def a b c floor_eq_iff)
  moreover have "normalizeProgress \<lparr> lengthComputable = True, loaded = 0, total = 0 \<rparr> = [NaN]"
    by (simp add: normalizeProgress_def to_number_def round_double_def)
  ultimately show ?thesis by simp
qed

text \<open>
  C7, amended: for an event with a computable total the callback is called once, with
  \<^verbatim>\<open>Math.round((loaded / total) * 100)\<close> computed on doubles; when the total is not 0 and
  \<^verbatim>\<open>loaded\<close> does not exceed it, this is an integer from 0 to 100. For an event without a
  computable total the callback is not called.
\<close>

theorem normalizeProgress_percentage:
  "(lengthComputable e \<longrightarrow>
      normalizeProgress e =
        [Math_round (js_mul (js_div (to_number (loaded e)) (to_number (total e))) (Fin 100))])
   \<and> (lengthComputable e \<and> total e \<noteq> 0 \<and> loaded e \<le> total e \<longrightarrow>
      (\<exists>n. 0 \<le> n \<and> n \<le> 100 \<and> normalizeProgress e = [Fin (of_int n)]))
   \<and> (\<not> lengthComputable e \<longrightarrow> normalizeProgress e = [])"
  using normalizeProgress_range[of e] by (simp add: normalizeProgress_def)

theorem normalizeProgress_percentage_witness:
  "(\<exists>n. 0 \<le> n \<and> n \<le> 100 \<and>
      normalizeProgress \<lparr> lengthComputable = True, loaded = 29, total = 200 \<rparr> = [Fin (of_int n)])
   \<and> normalizeProgress \<lparr> lengthComputable = True, loaded = 29, total = 200 \<rparr> = [Fin 14]
   \<and> normalizeProgress \<lparr> lengthComputable = False, loaded = 29, total = 200 \<rparr> = []"
proof -
  have a: "\<exists>n. 0 \<le> n \<and> n \<le> 100 \<and>
      normalizeProgress \<lparr> lengthComputable = True, loaded = 29, total = 200 \<rparr> = [Fin (of_int n)]"
  proof -
    let ?e = "\<lparr> lengthComputable = True, loaded = 29, total = 200 \<rparr>"
    have "lengthComputable ?e \<and> total ?e \<noteq> 0 \<and> loaded ?e \<le> total ?e" by simp
    with normalizeProgress_percentage [of ?e] show ?thesis by blast
  qed
  have b: "normalizeProgress \<lparr> lengthComputable = False, loaded = 29, total = 200 \<rparr> = []"
  proof -
    let ?e = "\<lparr> lengthComputable = False, loaded = 29, total = 200 \<rparr>"
    have "\<not> lengthComputable ?e" by simp
    with normalizeProgress_percentage [of ?e] show ?thesis by blast
  qed
  show ?thesis using a b normalizeProgress_29_of_200 by blast
qed

end
